theory Spec2Isabelle
  imports Complex_Main
begin

section \<open>Data model\<close>

text \<open>
  One row of the Sparkify event log, with the columns the pipeline reads. The
  registration timestamp is nullable; \<open>clean_data\<close> filters the null ones out, the
  functions below still say what they do on them.
\<close>

record event =
  userId :: string
  sessionId :: int
  ts :: int
  registration :: "int option"
  page :: string

text \<open>A labelled row: the same columns plus the label column (nullable integer).\<close>

record labeled_event = event +
  Churn :: "int option"

text \<open>
  A data frame is the list of its rows. Spark's aggregates return null on an
  empty group and otherwise fold the group.
\<close>

fun spark_max :: "int list \<Rightarrow> int option" where
  "spark_max [] = None"
| "spark_max (x # xs) = Some (fold max xs x)"

fun spark_min :: "int list \<Rightarrow> int option" where
  "spark_min [] = None"
| "spark_min (x # xs) = Some (fold min xs x)"

fun spark_first :: "'a option list \<Rightarrow> 'a option" where
  "spark_first [] = None"
| "spark_first (x # xs) = x"

fun spark_last :: "'a option list \<Rightarrow> 'a option" where
  "spark_last [] = None"
| "spark_last (x # xs) = (if xs = [] then x else spark_last xs)"

text \<open>
  \<open>Window.partitionBy('userId').orderBy('ts').rangeBetween(unboundedPreceding,
  unboundedFollowing)\<close>: the frame of a row is the whole partition of its user,
  ordered by timestamp (rows with equal timestamps keep the order of the frame).
\<close>

definition userWindow :: "('a event_scheme) list \<Rightarrow> string \<Rightarrow> ('a event_scheme) list" where
  "userWindow df u = sort_key ts (filter (\<lambda>r. userId r = u) df)"

definition mk_event :: "string \<Rightarrow> int \<Rightarrow> int \<Rightarrow> int option \<Rightarrow> string \<Rightarrow> event" where
  "mk_event u s t r p = \<lparr>userId = u, sessionId = s, ts = t, registration = r, page = p\<rparr>"

section \<open>Data labeling\<close>

definition terminal_action :: string where
  "terminal_action = ''Cancellation Confirmation''"

text \<open>First \<open>withColumn\<close> of \<open>label_data\<close>: 1 on a cancellation row, 0 otherwise.\<close>

definition churn_flag :: "event \<Rightarrow> labeled_event" where
  "churn_flag e =
     \<lparr>userId = userId e, sessionId = sessionId e, ts = ts e,
      registration = registration e, page = page e,
      Churn = Some (if page e = terminal_action then 1 else 0)\<rparr>"

text \<open>Second \<open>withColumn\<close>: the maximum of the flag over the row's window.\<close>

definition max_label_over :: "labeled_event list \<Rightarrow> labeled_event \<Rightarrow> int option" where
  "max_label_over df r =
     spark_max (concat (map (\<lambda>x. case Churn x of None \<Rightarrow> [] | Some v \<Rightarrow> [v])
                            (userWindow df (userId r))))"

definition label_data :: "event list \<Rightarrow> labeled_event list" where
  "label_data df =
     (let df1 = map churn_flag df
      in map (\<lambda>r. r\<lparr>Churn := max_label_over df1 r\<rparr>) df1)"

section \<open>Feature engineering\<close>

text \<open>
  Column arithmetic of Spark SQL on nullable values: a null operand gives null, a
  comparison with null is null (and \<open>when\<close> then takes the \<open>otherwise\<close> branch),
  and \<open>/\<close> is a division of doubles that gives null on a zero divisor. Doubles
  are modelled by the real numbers; rounding is outside the model.
\<close>

definition minus_null :: "int option \<Rightarrow> int option \<Rightarrow> int option" where
  "minus_null a b = (case (a, b) of (Some x, Some y) \<Rightarrow> Some (x - y) | _ \<Rightarrow> None)"

definition gt_null :: "int option \<Rightarrow> int option \<Rightarrow> bool option" where
  "gt_null a b = (case (a, b) of (Some x, Some y) \<Rightarrow> Some (y < x) | _ \<Rightarrow> None)"

definition spark_div :: "real option \<Rightarrow> real option \<Rightarrow> real option" where
  "spark_div a b =
     (case (a, b) of (Some x, Some y) \<Rightarrow> (if y = 0 then None else Some (x / y)) | _ \<Rightarrow> None)"

definition to_double :: "int option \<Rightarrow> real option" where
  "to_double a = map_option real_of_int a"

text \<open>\<open>avg\<close> skips nulls and is null when nothing is left.\<close>

definition spark_avg :: "real option list \<Rightarrow> real option" where
  "spark_avg xs =
     (let vs = concat (map (\<lambda>x. case x of None \<Rightarrow> [] | Some v \<Rightarrow> [v]) xs)
      in if vs = [] then None else Some (sum_list vs / real (length vs)))"

text \<open>\<open>sum(when(cond, 1).otherwise(0))\<close> over a group.\<close>

definition count_when :: "(string \<Rightarrow> bool) \<Rightarrow> ('a event_scheme) list \<Rightarrow> int" where
  "count_when P g = sum_list (map (\<lambda>r. if P (page r) then 1 else 0) g)"

text \<open>\<open>groupBy('userId')\<close>: one group per user, the rows in the order of the frame.\<close>

definition groupBy_userId :: "('a event_scheme) list \<Rightarrow> (string \<times> ('a event_scheme) list) list" where
  "groupBy_userId df = map (\<lambda>u. (u, filter (\<lambda>r. userId r = u) df)) (remdups (map userId df))"

text \<open>Registration duration in days: last timestamp minus last registration of the group.\<close>

definition regist_duration_df :: "('a event_scheme) list \<Rightarrow> (string \<times> real option) list" where
  "regist_duration_df df =
     map (\<lambda>(u, g).
            (u, spark_div (spark_div (spark_div
                  (to_double (minus_null (spark_last (map (\<lambda>r. Some (ts r)) g))
                                         (spark_last (map registration g))))
                  (Some 1000)) (Some 3600)) (Some 24)))
         (groupBy_userId df)"

text \<open>
  Average session duration in hours: \<open>groupBy(['userId', 'sessionId'])\<close> gives the
  start and end of every session, \<open>groupBy('userId')\<close> averages their lengths.
\<close>

definition session_bounds :: "('a event_scheme) list \<Rightarrow> (string \<times> int \<times> int option \<times> int option) list" where
  "session_bounds df =
     map (\<lambda>(u, s).
            (let g = filter (\<lambda>r. userId r = u \<and> sessionId r = s) df
             in (u, s, spark_min (map ts g), spark_max (map ts g))))
         (remdups (map (\<lambda>r. (userId r, sessionId r)) df))"

definition avg_session_duration_df :: "('a event_scheme) list \<Rightarrow> (string \<times> real option) list" where
  "avg_session_duration_df df =
     (let sb = session_bounds df
      in map (\<lambda>u. (u, spark_avg
                        (map (\<lambda>(u', s, session_start, session_end).
                                spark_div (spark_div (to_double (minus_null session_end session_start))
                                                     (Some 1000)) (Some 3600))
                             (filter (\<lambda>(u', s, session_start, session_end). u' = u) sb))))
             (remdups (map (\<lambda>(u', s, session_start, session_end). u') sb)))"

text \<open>The default start and end of the observation period: the extremes of \<open>ts\<close>.\<close>

definition obs_start_default :: "('a event_scheme) list \<Rightarrow> int option" where
  "obs_start_default df = spark_min (map ts df)"

definition obs_end_default :: "('a event_scheme) list \<Rightarrow> int option" where
  "obs_end_default df = spark_max (map ts df)"

text \<open>The four \<open>withColumn\<close> columns of the observation period, as functions of a row.\<close>

definition obs_start :: "('a event_scheme) list \<Rightarrow> 'a event_scheme \<Rightarrow> int option" where
  "obs_start df r =
     (if gt_null (registration r) (obs_start_default df) = Some True
      then spark_first (map (\<lambda>x. Some (ts x)) (userWindow df (userId r)))
      else obs_start_default df)"

definition end_state :: "('a event_scheme) list \<Rightarrow> 'a event_scheme \<Rightarrow> string option" where
  "end_state df r = spark_last (map (\<lambda>x. Some (page x)) (userWindow df (userId r)))"

definition obs_end :: "('a event_scheme) list \<Rightarrow> 'a event_scheme \<Rightarrow> int option" where
  "obs_end df r =
     (if end_state df r = Some terminal_action
      then spark_last (map (\<lambda>x. Some (ts x)) (userWindow df (userId r)))
      else obs_end_default df)"

definition obsDays_col :: "('a event_scheme) list \<Rightarrow> 'a event_scheme \<Rightarrow> real option" where
  "obsDays_col df r =
     spark_div (spark_div (spark_div (to_double (minus_null (obs_end df r) (obs_start df r)))
                                     (Some 1000)) (Some 3600)) (Some 24)"

text \<open>The aggregated activity statistics, one row per user.\<close>

record agg_row =
  user :: string
  churn_label :: "int option"
  obsDays :: "real option"
  nSongs :: int
  nThumbsUp :: int
  nThumbsDown :: int
  nUpgrade :: int
  nDowngrade :: int
  nAddFriend :: int
  nAddPlaylist :: int
  nAdvert :: int
  nHelp :: int
  nError :: int

definition activity_df :: "labeled_event list \<Rightarrow> agg_row list" where
  "activity_df df =
     map (\<lambda>(u, g).
            \<lparr>user = u,
             churn_label = spark_first (map Churn g),
             obsDays = spark_first (map (obsDays_col df) g),
             nSongs = count_when (\<lambda>p. p = ''NextSong'') g,
             nThumbsUp = count_when (\<lambda>p. p = ''Thumbs Up'') g,
             nThumbsDown = count_when (\<lambda>p. p = ''Thumbs Down'') g,
             nUpgrade = count_when (\<lambda>p. p = ''Upgrade'' \<or> p = ''Submit Upgrade'') g,
             nDowngrade = count_when (\<lambda>p. p = ''Downgrade'' \<or> p = ''Submit Downgrade'') g,
             nAddFriend = count_when (\<lambda>p. p = ''Add Friend'') g,
             nAddPlaylist = count_when (\<lambda>p. p = ''Add to Playlist'') g,
             nAdvert = count_when (\<lambda>p. p = ''Roll Advert'') g,
             nHelp = count_when (\<lambda>p. p = ''Help'') g,
             nError = count_when (\<lambda>p. p = ''Error'') g\<rparr>)
         (groupBy_userId df)"

text \<open>The two inner joins on \<open>userId\<close>.\<close>

definition joined_df :: "labeled_event list \<Rightarrow> (agg_row \<times> real option \<times> real option) list" where
  "joined_df df =
     [(a, rd, sd). a \<leftarrow> activity_df df,
                   (u1, rd) \<leftarrow> regist_duration_df df, u1 = user a,
                   (u2, sd) \<leftarrow> avg_session_duration_df df, u2 = user a]"




section \<open>Dropping multicollinear features\<close>

text \<open>
  A feature table is the list of its columns, each a name with its data; the
  names of a table are pairwise distinct and there is at least one column. The
  Pearson correlation matrix that \<open>Correlation.corr\<close> computes for the table is
  taken as given, indexed by column names, with \<open>None\<close> for a NaN entry (a column
  of zero variance). The correlation of two columns depends on these two columns
  only, so a table with fewer columns has the same matrix restricted to its columns.
\<close>

type_synonym corr_matrix = "string \<Rightarrow> string \<Rightarrow> real option"

datatype py_error = UnboundLocalError | KeyError | ValueError

text \<open>\<open>np.abs(corr_mat_pd.values) > threshold\<close>; a comparison with NaN is false.\<close>

definition is_high_corr :: "corr_matrix \<Rightarrow> real \<Rightarrow> string \<Rightarrow> string \<Rightarrow> bool" where
  "is_high_corr corr threshold a b =
     (case corr a b of None \<Rightarrow> False | Some v \<Rightarrow> threshold < \<bar>v\<bar>)"

text \<open>\<open>is_high_corr.astype(int) - np.identity(n)\<close>, entry by entry.\<close>

definition adj_mat :: "corr_matrix \<Rightarrow> real \<Rightarrow> string \<Rightarrow> string \<Rightarrow> int" where
  "adj_mat corr threshold a b =
     (if is_high_corr corr threshold a b then 1 else 0) - (if a = b then 1 else 0)"

text \<open>
  With \<open>directed=False\<close> two nodes are joined when either entry between them is
  stored in the sparse matrix, that is, is not zero.
\<close>

definition edge :: "corr_matrix \<Rightarrow> real \<Rightarrow> string \<Rightarrow> string \<Rightarrow> bool" where
  "edge corr threshold a b \<longleftrightarrow> adj_mat corr threshold a b \<noteq> 0 \<or> adj_mat corr threshold b a \<noteq> 0"

text \<open>
  \<open>scipy.sparse.csgraph.connected_components\<close> returns for every node the number
  of its component, the components numbered from 0 in the order of their first
  node. The component of a node is found by adding neighbours round by round; no
  more rounds than there are nodes can add anything. The component of a column of
  the table contains the column, so its first node exists.
\<close>

fun grow :: "(string \<Rightarrow> string \<Rightarrow> bool) \<Rightarrow> string list \<Rightarrow> nat \<Rightarrow> string list \<Rightarrow> string list" where
  "grow e cols 0 S = S"
| "grow e cols (Suc n) S =
     grow e cols n (filter (\<lambda>c. c \<in> set S \<or> (\<exists>s \<in> set S. e s c)) cols)"

definition component_of :: "(string \<Rightarrow> string \<Rightarrow> bool) \<Rightarrow> string list \<Rightarrow> string \<Rightarrow> string list" where
  "component_of e cols c = grow e cols (length cols) [c]"

definition connected_components :: "(string \<Rightarrow> string \<Rightarrow> bool) \<Rightarrow> string list \<Rightarrow> nat list" where
  "connected_components e cols =
     (let firsts = filter (\<lambda>c. hd (component_of e cols c) = c) cols
      in map (\<lambda>c. length (takeWhile (\<lambda>f. f \<noteq> hd (component_of e cols c)) firsts)) cols)"

text \<open>\<open>np.unique(corr_labels, return_counts=True)\<close>: the sorted distinct values, each with its count.\<close>

definition np_unique :: "nat list \<Rightarrow> (nat \<times> nat) list" where
  "np_unique xs = map (\<lambda>l. (l, count_list xs l)) (sort (remdups xs))"

text \<open>
  \<open>Series.idxmax()\<close>: the index label of the first occurrence of the largest
  entry, NaN skipped. When every entry is NaN no label comes out of it, and the
  \<open>remove\<close> that follows raises \<open>ValueError\<close> (newer pandas raises it in \<open>idxmax\<close>).
\<close>

fun idxmax_from :: "(string \<times> real) option \<Rightarrow> (string \<times> real option) list \<Rightarrow> (string \<times> real) option" where
  "idxmax_from best [] = best"
| "idxmax_from best ((c, None) # xs) = idxmax_from best xs"
| "idxmax_from None ((c, Some v) # xs) = idxmax_from (Some (c, v)) xs"
| "idxmax_from (Some (b, w)) ((c, Some v) # xs) =
     idxmax_from (if w < v then Some (c, v) else Some (b, w)) xs"

definition idxmax :: "(string \<times> real option) list \<Rightarrow> py_error + string" where
  "idxmax series = (case idxmax_from None series of None \<Rightarrow> Inl ValueError | Some (c, v) \<Rightarrow> Inr c)"

text \<open>
  The loop over \<open>high_corr_col_dict.values()\<close>. Its state is the list of names
  still in \<open>corr_mat_pd\<close> (the loop drops rows and columns from it in place) and
  \<open>cols_to_drop\<close>. \<open>corr_mat_pd.loc[col_name_list, label]\<close> raises \<open>KeyError\<close> when
  a name is no longer in the matrix.
\<close>

fun keep_loop :: "corr_matrix \<Rightarrow> string \<Rightarrow> string list \<Rightarrow> string list list \<Rightarrow> string list \<Rightarrow>
    py_error + string list" where
  "keep_loop corr label mat [] cols_to_drop = Inr cols_to_drop"
| "keep_loop corr label mat (col_name_list # rest) cols_to_drop =
     (if label \<notin> set mat \<or> \<not> set col_name_list \<subseteq> set mat then Inl KeyError
      else case idxmax (map (\<lambda>c. (c, corr c label)) col_name_list) of
             Inl err \<Rightarrow> Inl err
           | Inr col_to_keep \<Rightarrow>
               (let dropped = remove1 col_to_keep col_name_list
                in keep_loop corr label (filter (\<lambda>c. c \<notin> set dropped) mat) rest
                     (cols_to_drop @ dropped)))"

text \<open>
  \<open>high_corr_col_dict.values()\<close>: for every label of \<open>high_corr_labels\<close> (the labels
  that occur more than once, in increasing order) the columns with that label, in
  column order. There are as many groups as there are such labels.
\<close>

definition high_corr_groups :: "corr_matrix \<Rightarrow> real \<Rightarrow> string list \<Rightarrow> string list list" where
  "high_corr_groups corr threshold columns =
     (let corr_labels = connected_components (edge corr threshold) columns;
          high_corr_labels = map fst (filter (\<lambda>(l, n). 1 < n) (np_unique corr_labels))
      in map (\<lambda>high_corr_label.
                map snd (filter (\<lambda>(corr_label, col_name). corr_label = high_corr_label)
                                (zip corr_labels columns)))
             high_corr_labels)"

text \<open>
  \<open>cols_to_drop\<close> is assigned only inside the \<open>if\<close>; without a group the final
  \<open>user_df.drop(*cols_to_drop)\<close> reads a local variable that was never bound.
\<close>

definition drop_multicollinear_features ::
    "corr_matrix \<Rightarrow> (string \<times> 'v) list \<Rightarrow> string \<Rightarrow> real \<Rightarrow> py_error + (string \<times> 'v) list" where
  "drop_multicollinear_features corr user_df label threshold =
     (let columns = map fst user_df;
          groups = high_corr_groups corr threshold columns
      in if 0 < length groups
         then (case keep_loop corr label columns groups [] of
                 Inl err \<Rightarrow> Inl err
               | Inr cols_to_drop \<Rightarrow> Inr (filter (\<lambda>(name, values). name \<notin> set cols_to_drop) user_df))
         else Inl UnboundLocalError)"

text \<open>
  The connected component of a column in the high-correlation graph, as a set:
  the columns reachable from it along edges between columns of the table.
\<close>

definition component_set :: "(string \<Rightarrow> string \<Rightarrow> bool) \<Rightarrow> string list \<Rightarrow> string \<Rightarrow> string set" where
  "component_set e cols c =
     {d \<in> set cols. (c, d) \<in> {(a, b). a \<in> set cols \<and> b \<in> set cols \<and> e a b}\<^sup>*}"

text \<open>A set of columns that no edge of the graph leaves.\<close>

definition closed_under :: "(string \<Rightarrow> string \<Rightarrow> bool) \<Rightarrow> string list \<Rightarrow> string set \<Rightarrow> bool" where
  "closed_under e cols A \<longleftrightarrow> (\<forall>a \<in> A. \<forall>d \<in> set cols. e a d \<longrightarrow> d \<in> A)"

text \<open>What one round of the loop adds to \<open>cols_to_drop\<close> for a group.\<close>

definition dropped_of :: "corr_matrix \<Rightarrow> string \<Rightarrow> string list \<Rightarrow> string list" where
  "dropped_of corr label g =
     (case idxmax (map (\<lambda>c. (c, corr c label)) g) of Inl err \<Rightarrow> [] | Inr k \<Rightarrow> remove1 k g)"

text \<open>
  Correlation matrices for the examples: 1 on the diagonal, the listed number for
  a listed pair in either order, 0 elsewhere.
\<close>

definition corr_of :: "((string \<times> string) \<times> real) list \<Rightarrow> corr_matrix" where
  "corr_of entries a b =
     (if a = b then Some 1
      else case map_of entries (a, b) of
             Some v \<Rightarrow> Some v
           | None \<Rightarrow> (case map_of entries (b, a) of Some v \<Rightarrow> Some v | None \<Rightarrow> Some 0))"

text \<open>
  The default threshold of the source, and two example tables with their
  correlation matrices. The data of a column plays no part in what follows; the
  examples carry a number in its place. In the first table \<open>A\<close> and \<open>B\<close> are
  highly correlated and both negatively correlated with the label; in the second
  the feature \<open>F\<close> is perfectly correlated with the label and stands before it.
\<close>

definition default_threshold :: real where
  "default_threshold = 85 / 100"

definition corr_AB :: corr_matrix where
  "corr_AB = corr_of [((''A'', ''B''), 9 / 10), ((''A'', ''Churn''), - 3 / 10),
                      ((''B'', ''Churn''), - 1 / 10)]"

definition table_AB :: "(string \<times> nat) list" where
  "table_AB = [(''Churn'', 0), (''A'', 1), (''B'', 2), (''D'', 3)]"



text \<open>
  Two small event logs used below to run the definitions. Timestamps are epoch
  milliseconds; one day is 86400000 ms.
\<close>

definition log_two_users :: "event list" where
  "log_two_users =
     [mk_event ''a'' 1 0 (Some 0) ''NextSong'',
      mk_event ''b'' 2 86400000 (Some 1000) ''NextSong'',
      mk_event ''b'' 2 259200000 (Some 1000) ''Cancellation Confirmation'',
      mk_event ''a'' 3 345600000 (Some 0) ''Help'']"


section \<open>Properties of the labeler\<close>

lemma fold_max_ge: "(a::int) \<le> fold max xs a"
  by (induction xs arbitrary: a) (auto intro: order_trans [OF max.cobounded2])

lemma fold_max_in: "fold max xs (a::int) \<in> insert a (set xs)"
  by (induction xs arbitrary: a) (auto simp: max_def)

lemma fold_max_upper: "x \<in> set xs \<Longrightarrow> (x::int) \<le> fold max xs a"
proof (induction xs arbitrary: a)
  case Nil
  then show ?case by simp
next
  case (Cons y ys)
  show ?case
  proof (cases "x = y")
    case True
    have "y \<le> max y a" by simp
    also have "\<dots> \<le> fold max ys (max y a)" by (rule fold_max_ge)
    finally show ?thesis using True by simp
  next
    case False
    with Cons show ?thesis by simp
  qed
qed

lemma spark_max_flags:
  assumes "xs \<noteq> []" and "set xs \<subseteq> {0, 1}"
  shows "spark_max xs = Some (if 1 \<in> set xs then 1 else 0)"
proof -
  from assms(1) obtain a as where xs: "xs = a # as" by (cases xs) auto
  have mem: "fold max as a \<in> set xs" using fold_max_in [of as a] xs by simp
  show ?thesis
  proof (cases "1 \<in> set xs")
    case True
    then have "1 \<le> fold max as a"
      using fold_max_upper [of 1 as a] fold_max_ge [of a as] xs by auto
    moreover have "fold max as a \<le> 1" using mem assms(2) by auto
    ultimately show ?thesis using True xs by simp
  next
    case False
    then have "fold max as a = 0" using mem assms(2) by auto
    then show ?thesis using False xs by simp
  qed
qed

lemma churn_flag_sel [simp]:
  "userId (churn_flag e) = userId e"
  "ts (churn_flag e) = ts e"
  "page (churn_flag e) = page e"
  "registration (churn_flag e) = registration e"
  "sessionId (churn_flag e) = sessionId e"
  "Churn (churn_flag e) = Some (if page e = terminal_action then 1 else 0)"
  by (simp_all add: churn_flag_def)

lemma set_non_null:
  "set (concat (map (\<lambda>x. case f x of None \<Rightarrow> [] | Some v \<Rightarrow> [v]) xs)) =
   {v. \<exists>x \<in> set xs. f x = Some v}"
  by (induction xs) (auto split: option.splits)

lemma max_label_over_flags:
  assumes "e \<in> set df"
  shows "max_label_over (map churn_flag df) (churn_flag e) =
         Some (if \<exists>e' \<in> set df. userId e' = userId e \<and> page e' = terminal_action
               then 1 else 0)"
proof -
  let ?w = "userWindow (map churn_flag df) (userId e)"
  let ?vs = "concat (map (\<lambda>x. case Churn x of None \<Rightarrow> [] | Some v \<Rightarrow> [v]) ?w)"
  have setw: "set ?w = churn_flag ` {r \<in> set df. userId r = userId e}"
    by (auto simp: userWindow_def)
  have setvs: "set ?vs =
      (\<lambda>r. if page r = terminal_action then 1 else 0) ` {r \<in> set df. userId r = userId e}"
    unfolding set_non_null setw by auto
  from assms have "set ?vs \<noteq> {}" unfolding setvs by blast
  then have ne: "?vs \<noteq> []" by fastforce
  have sub: "set ?vs \<subseteq> {0, 1}" unfolding setvs by auto
  have one: "1 \<in> set ?vs \<longleftrightarrow>
      (\<exists>e' \<in> set df. userId e' = userId e \<and> page e' = terminal_action)"
    unfolding setvs by (auto simp: image_iff)
  have "max_label_over (map churn_flag df) (churn_flag e) = spark_max ?vs"
    by (simp add: max_label_over_def)
  with spark_max_flags [OF ne sub] one show ?thesis by simp
qed

lemma label_data_rows:
  "label_data df =
     map (\<lambda>e. \<lparr>userId = userId e, sessionId = sessionId e, ts = ts e,
                registration = registration e, page = page e,
                Churn = Some (if \<exists>e' \<in> set df. userId e' = userId e \<and>
                                   page e' = terminal_action
                              then 1 else 0)\<rparr>) df"
proof -
  have "\<And>e. e \<in> set df \<Longrightarrow>
          (churn_flag e)\<lparr>Churn := max_label_over (map churn_flag df) (churn_flag e)\<rparr> =
          \<lparr>userId = userId e, sessionId = sessionId e, ts = ts e,
           registration = registration e, page = page e,
           Churn = Some (if \<exists>e' \<in> set df. userId e' = userId e \<and>
                              page e' = terminal_action
                         then 1 else 0)\<rparr>"
    by (simp only: max_label_over_flags) (simp add: churn_flag_def)
  then show ?thesis
    by (simp add: label_data_def Let_def)
qed

text \<open>
  C1: every event of the input is emitted with Label 1 exactly when some event of
  the same user, anywhere in the data, has the page \<open>Cancellation Confirmation\<close>,
  and with Label 0 when the user has no such event.
\<close>

theorem label_data_iff_terminal:
  "label_data df =
     map (\<lambda>e. \<lparr>userId = userId e, sessionId = sessionId e, ts = ts e,
                registration = registration e, page = page e,
                Churn = Some (if \<exists>e' \<in> set df. userId e' = userId e \<and>
                                   page e' = ''Cancellation Confirmation''
                              then 1 else 0)\<rparr>) df"
  using label_data_rows [of df] by (simp only: terminal_action_def)

theorem label_data_iff_terminal_witness:
  "label_data
     [mk_event ''u1'' 1 10 (Some 5) ''NextSong'',
      mk_event ''u2'' 2 20 (Some 5) ''NextSong'',
      mk_event ''u1'' 1 30 (Some 5) ''Cancellation Confirmation''] =
   [\<lparr>userId = ''u1'', sessionId = 1, ts = 10, registration = Some 5,
     page = ''NextSong'', Churn = Some 1\<rparr>,
    \<lparr>userId = ''u2'', sessionId = 2, ts = 20, registration = Some 5,
     page = ''NextSong'', Churn = Some 0\<rparr>,
    \<lparr>userId = ''u1'', sessionId = 1, ts = 30, registration = Some 5,
     page = ''Cancellation Confirmation'', Churn = Some 1\<rparr>]"
  using label_data_iff_terminal
    [of "[mk_event ''u1'' 1 10 (Some 5) ''NextSong'',
          mk_event ''u2'' 2 20 (Some 5) ''NextSong'',
          mk_event ''u1'' 1 30 (Some 5) ''Cancellation Confirmation'']"]
  by (simp add: mk_event_def)

text \<open>
  C10: in the output of the labeler, two rows of the same user carry the same
  label.
\<close>

theorem label_broadcast:
  "r1 \<in> set (label_data df) \<Longrightarrow> r2 \<in> set (label_data df) \<Longrightarrow>
   userId r1 = userId r2 \<Longrightarrow> Churn r1 = Churn r2"
  unfolding label_data_rows [of df] by auto

theorem label_broadcast_witness:
  "\<lparr>userId = ''u1'', sessionId = 1, ts = 10, registration = Some 5,
     page = ''NextSong'', Churn = Some 1\<rparr>
     \<in> set (label_data
         [mk_event ''u1'' 1 10 (Some 5) ''NextSong'',
          mk_event ''u2'' 2 20 (Some 5) ''NextSong'',
          mk_event ''u1'' 1 30 (Some 5) ''Cancellation Confirmation'']) \<and>
   \<lparr>userId = ''u1'', sessionId = 1, ts = 30, registration = Some 5,
     page = ''Cancellation Confirmation'', Churn = Some 1\<rparr>
     \<in> set (label_data
         [mk_event ''u1'' 1 10 (Some 5) ''NextSong'',
          mk_event ''u2'' 2 20 (Some 5) ''NextSong'',
          mk_event ''u1'' 1 30 (Some 5) ''Cancellation Confirmation''])"
proof -
  let ?df = "[mk_event ''u1'' 1 10 (Some 5) ''NextSong'',
        mk_event ''u2'' 2 20 (Some 5) ''NextSong'',
        mk_event ''u1'' 1 30 (Some 5) ''Cancellation Confirmation'']"
  let ?a = "\<lparr>userId = ''u1'', sessionId = 1, ts = 10, registration = Some 5,
     page = ''NextSong'', Churn = Some (1::int)\<rparr>"
  let ?b = "\<lparr>userId = ''u1'', sessionId = 1, ts = 30, registration = Some 5,
     page = ''Cancellation Confirmation'', Churn = Some (1::int)\<rparr>"
  have rows: "label_data ?df = [?a,
     \<lparr>userId = ''u2'', sessionId = 2, ts = 20, registration = Some 5,
      page = ''NextSong'', Churn = Some 0\<rparr>, ?b]"
    using label_data_rows [of ?df] by (simp add: mk_event_def terminal_action_def)
  have a: "?a \<in> set (label_data ?df)" and b: "?b \<in> set (label_data ?df)"
    unfolding rows by simp_all
  have u: "userId ?a = userId ?b" by simp
  from label_broadcast [OF a b u] a b show ?thesis by simp
qed

section \<open>Properties of the feature builder\<close>

lemma spark_min_Min: "xs \<noteq> [] \<Longrightarrow> spark_min xs = Some (Min (set xs))"
proof -
  assume "xs \<noteq> []"
  then obtain a as where xs: "xs = a # as" by (cases xs) auto
  have "Min (set (a # as)) = fold min as a" by (rule Min.set_eq_fold)
  then show ?thesis unfolding xs by (simp only: spark_min.simps)
qed

lemma spark_max_Max: "xs \<noteq> [] \<Longrightarrow> spark_max xs = Some (Max (set xs))"
proof -
  assume "xs \<noteq> []"
  then obtain a as where xs: "xs = a # as" by (cases xs) auto
  have "Max (set (a # as)) = fold max as a" by (rule Max.set_eq_fold)
  then show ?thesis unfolding xs by (simp only: spark_max.simps)
qed

lemma spark_first_map:
  "xs \<noteq> [] \<Longrightarrow> spark_first (map (\<lambda>x. Some (f x)) xs) = Some (f (hd xs))"
  by (cases xs) simp_all

lemma spark_last_map:
  "xs \<noteq> [] \<Longrightarrow> spark_last (map (\<lambda>x. Some (f x)) xs) = Some (f (last xs))"
  by (induction xs) simp_all

lemma set_userWindow: "set (userWindow df u) = {e \<in> set df. userId e = u}"
  by (auto simp: userWindow_def)

lemma userWindow_nonempty: "r \<in> set df \<Longrightarrow> userWindow df (userId r) \<noteq> []"
  using set_userWindow [of df "userId r"] by fastforce

lemma sorted_hd_Min:
  assumes "sorted (map f ys)" and "ys \<noteq> []"
  shows "f (hd ys) = Min (f ` set ys)"
proof -
  from assms(2) obtain y ys' where ys: "ys = y # ys'" by (cases ys) auto
  have "Min (f ` set ys) = f y"
    using assms(1) unfolding ys by (intro Min_eqI) auto
  then show ?thesis by (simp add: ys)
qed

lemma sorted_last_Max:
  assumes "sorted (map f ys)" and "ys \<noteq> []"
  shows "f (last ys) = Max (f ` set ys)"
proof -
  have "Max (f ` set ys) = f (last ys)"
  proof (intro Max_eqI)
    fix v assume "v \<in> f ` set ys"
    then obtain i where i: "i < length ys" "v = f (ys ! i)"
      by (auto simp: in_set_conv_nth)
    have "map f ys ! i \<le> map f ys ! (length ys - 1)"
      using assms i by (intro sorted_nth_mono) auto
    then show "v \<le> f (last ys)"
      using i assms(2) by (simp add: last_conv_nth)
  qed (use assms(2) in auto)
  then show ?thesis by simp
qed

lemma ts_hd_userWindow:
  "r \<in> set df \<Longrightarrow>
   ts (hd (userWindow df (userId r))) = Min (ts ` {e \<in> set df. userId e = userId r})"
  using sorted_hd_Min [of ts "userWindow df (userId r)"] userWindow_nonempty [of r df]
  by (simp add: set_userWindow) (simp add: userWindow_def)

lemma ts_last_userWindow:
  "r \<in> set df \<Longrightarrow>
   ts (last (userWindow df (userId r))) = Max (ts ` {e \<in> set df. userId e = userId r})"
  using sorted_last_Max [of ts "userWindow df (userId r)"] userWindow_nonempty [of r df]
  by (simp add: set_userWindow) (simp add: userWindow_def)

lemma obs_start_default_Min: "df \<noteq> [] \<Longrightarrow> obs_start_default df = Some (Min (ts ` set df))"
  by (simp add: obs_start_default_def spark_min_Min)

lemma obs_end_default_Max: "df \<noteq> [] \<Longrightarrow> obs_end_default df = Some (Max (ts ` set df))"
  by (simp add: obs_end_default_def spark_max_Max)

text \<open>
  C2, as the code has it: the observation window of a row starts at the earliest
  event timestamp of the row's user when the row's registration timestamp is
  greater than the smallest timestamp of the whole data, and at that smallest
  timestamp otherwise (also when the registration is null).
\<close>

theorem obs_start_first_event:
  assumes "r \<in> set df"
  shows "obs_start df r =
     (if \<exists>x. registration r = Some x \<and> Min (set (map ts df)) < x
      then Some (Min (set (map ts (filter (\<lambda>e. userId e = userId r) df))))
      else Some (Min (set (map ts df))))"
proof -
  from assms have ne: "df \<noteq> []" by auto
  have c: "gt_null (registration r) (obs_start_default df) = Some True \<longleftrightarrow>
           (\<exists>x. registration r = Some x \<and> Min (ts ` set df) < x)"
    by (auto simp: gt_null_def obs_start_default_Min [OF ne] split: option.splits)
  have "obs_start df r =
     (if \<exists>x. registration r = Some x \<and> Min (ts ` set df) < x
      then Some (Min (ts ` {e \<in> set df. userId e = userId r}))
      else Some (Min (ts ` set df)))"
    unfolding obs_start_def c
    by (cases "\<exists>x. registration r = Some x \<and> Min (ts ` set df) < x")
      (simp_all only: if_True if_False spark_first_map [OF userWindow_nonempty [OF assms]]
        ts_hd_userWindow [OF assms] obs_start_default_Min [OF ne])
  then show ?thesis by (simp only: set_map set_filter)
qed

theorem obs_start_first_event_witness:
  "mk_event ''b'' 2 259200000 (Some 1000) ''Cancellation Confirmation'' \<in> set log_two_users \<and>
   obs_start log_two_users
     (mk_event ''b'' 2 259200000 (Some 1000) ''Cancellation Confirmation'') = Some 86400000 \<and>
   mk_event ''a'' 3 345600000 (Some 0) ''Help'' \<in> set log_two_users \<and>
   obs_start log_two_users (mk_event ''a'' 3 345600000 (Some 0) ''Help'') = Some 0"
proof -
  have b: "mk_event ''b'' 2 259200000 (Some 1000) ''Cancellation Confirmation'' \<in> set log_two_users"
    and a: "mk_event ''a'' 3 345600000 (Some 0) ''Help'' \<in> set log_two_users"
    by (simp_all add: log_two_users_def)
  show ?thesis
    using obs_start_first_event [OF b] obs_start_first_event [OF a] a b
    by (simp add: log_two_users_def mk_event_def)
qed

text \<open>
  The claim as the specification words it fails: user \<open>b\<close> registered at 1000,
  after the smallest timestamp 0 of the data, and the window of \<open>b\<close> starts at
  86400000, the first event of \<open>b\<close>, not at the registration timestamp.
\<close>

theorem obs_start_is_not_registration:
  "registration (mk_event ''b'' 2 86400000 (Some 1000) ''NextSong'') = Some 1000 \<and>
   obs_start_default log_two_users = Some 0 \<and>
   obs_start log_two_users (mk_event ''b'' 2 86400000 (Some 1000) ''NextSong'') = Some 86400000"
  by (simp add: log_two_users_def obs_start_def obs_start_default_def gt_null_def
      userWindow_def mk_event_def)

text \<open>
  C6: the observation window of a row ends at the last event timestamp of the
  row's user when the final action of that user (the page of the last event of the
  user's history in timestamp order) is \<open>Cancellation Confirmation\<close>, and at the
  largest timestamp of the whole data otherwise. That last event is an event of
  the user and carries the user's largest timestamp.
\<close>

theorem obs_end_last_event:
  assumes "r \<in> set df"
  shows "obs_end df r =
     (if page (last (userWindow df (userId r))) = ''Cancellation Confirmation''
      then Some (Max (set (map ts (filter (\<lambda>e. userId e = userId r) df))))
      else Some (Max (set (map ts df)))) \<and>
    last (userWindow df (userId r)) \<in> set df \<and>
    userId (last (userWindow df (userId r))) = userId r \<and>
    ts (last (userWindow df (userId r))) =
      Max (set (map ts (filter (\<lambda>e. userId e = userId r) df)))"
proof -
  from assms have ne: "df \<noteq> []" by auto
  have c: "end_state df r = Some terminal_action \<longleftrightarrow>
           page (last (userWindow df (userId r))) = ''Cancellation Confirmation''"
    by (simp add: end_state_def spark_last_map userWindow_nonempty [OF assms] terminal_action_def)
  have "obs_end df r =
     (if page (last (userWindow df (userId r))) = ''Cancellation Confirmation''
      then Some (Max (ts ` {e \<in> set df. userId e = userId r}))
      else Some (Max (ts ` set df)))"
    unfolding obs_end_def c
    by (simp add: spark_last_map userWindow_nonempty [OF assms] ts_last_userWindow [OF assms]
        obs_end_default_Max [OF ne])
  then have window_end: "obs_end df r =
     (if page (last (userWindow df (userId r))) = ''Cancellation Confirmation''
      then Some (Max (set (map ts (filter (\<lambda>e. userId e = userId r) df))))
      else Some (Max (set (map ts df))))"
    by (simp only: set_map set_filter)
  have "last (userWindow df (userId r)) \<in> set (userWindow df (userId r))"
    by (rule last_in_set [OF userWindow_nonempty [OF assms]])
  then have final: "last (userWindow df (userId r)) \<in> set df"
    "userId (last (userWindow df (userId r))) = userId r"
    by (simp_all add: set_userWindow)
  have latest: "ts (last (userWindow df (userId r))) =
      Max (set (map ts (filter (\<lambda>e. userId e = userId r) df)))"
    using ts_last_userWindow [OF assms] by (simp only: set_map set_filter)
  from window_end final latest show ?thesis by (intro conjI)
qed

theorem obs_end_last_event_witness:
  "mk_event ''b'' 2 86400000 (Some 1000) ''NextSong'' \<in> set log_two_users \<and>
   obs_end log_two_users (mk_event ''b'' 2 86400000 (Some 1000) ''NextSong'') = Some 259200000 \<and>
   mk_event ''a'' 1 0 (Some 0) ''NextSong'' \<in> set log_two_users \<and>
   obs_end log_two_users (mk_event ''a'' 1 0 (Some 0) ''NextSong'') = Some 345600000"
proof -
  have b: "mk_event ''b'' 2 86400000 (Some 1000) ''NextSong'' \<in> set log_two_users"
    and a: "mk_event ''a'' 1 0 (Some 0) ''NextSong'' \<in> set log_two_users"
    by (simp_all add: log_two_users_def)
  show ?thesis
    using obs_end_last_event [OF b] obs_end_last_event [OF a] a b
    by (simp add: log_two_users_def mk_event_def userWindow_def)
qed





lemma activity_obsDays:
  assumes "a \<in> set (activity_df df)"
  shows "obsDays a = spark_first (map (obsDays_col df) (filter (\<lambda>r. userId r = user a) df))"
  using assms by (auto simp: activity_df_def groupBy_userId_def)

lemma activity_users: "map user (activity_df df) = remdups (map userId df)"
  by (simp add: activity_df_def groupBy_userId_def comp_def)

lemma regist_duration_users: "map fst (regist_duration_df df) = remdups (map userId df)"
  by (simp add: regist_duration_df_def groupBy_userId_def comp_def)

lemma session_users: "set (map fst (avg_session_duration_df df)) = userId ` set df"
proof -
  have "(\<lambda>(u', s, session_start, session_end). u') = (fst :: string \<times> int \<times> int option \<times> int option \<Rightarrow> string)"
    by (auto simp: fun_eq_iff)
  then have "set (map fst (avg_session_duration_df df)) = fst ` set (session_bounds df)"
    by (simp add: avg_session_duration_df_def Let_def comp_def)
  also have "\<dots> = userId ` set df"
    by (force simp: session_bounds_def Let_def image_iff)
  finally show ?thesis .
qed

lemma every_user_joined:
  assumes "e \<in> set df"
  shows "\<exists>a rd sd. (a, rd, sd) \<in> set (joined_df df) \<and> user a = userId e"
proof -
  from assms have "userId e \<in> set (map user (activity_df df))"
    unfolding activity_users by simp
  then obtain a where a: "a \<in> set (activity_df df)" "user a = userId e" by auto
  from assms have "userId e \<in> set (map fst (regist_duration_df df))"
    unfolding regist_duration_users by simp
  then obtain rd where rd: "(userId e, rd) \<in> set (regist_duration_df df)" by auto
  from assms have "userId e \<in> set (map fst (avg_session_duration_df df))"
    unfolding session_users by simp
  then obtain sd where sd: "(userId e, sd) \<in> set (avg_session_duration_df df)" by auto
  from a rd sd have "(a, rd, sd) \<in> set (joined_df df)"
    by (auto simp: joined_df_def)
  with a(2) show ?thesis by blast
qed



section \<open>Properties of the redundancy reducer\<close>

subsection \<open>The computed component is the connected component\<close>

lemma component_set_refl: "c \<in> set cols \<Longrightarrow> c \<in> component_set e cols c"
  by (simp add: component_set_def)

lemma component_set_step:
  "s \<in> component_set e cols c \<Longrightarrow> d \<in> set cols \<Longrightarrow> e s d \<Longrightarrow> d \<in> component_set e cols c"
  unfolding component_set_def
  by (auto intro: rtrancl_into_rtrancl)

lemma grow_sound:
  "set S \<subseteq> component_set e cols c \<Longrightarrow> set (grow e cols n S) \<subseteq> component_set e cols c"
proof (induction n arbitrary: S)
  case 0
  then show ?case by simp
next
  case (Suc n)
  have "set (filter (\<lambda>d. d \<in> set S \<or> (\<exists>s \<in> set S. e s d)) cols) \<subseteq> component_set e cols c"
    using Suc.prems by (auto intro: component_set_step)
  from Suc.IH [OF this] show ?case by simp
qed

lemma round_superset:
  "set S \<subseteq> set cols \<Longrightarrow> set S \<subseteq> set (filter (\<lambda>d. d \<in> set S \<or> (\<exists>s \<in> set S. e s d)) cols)"
  by auto

lemma grow_mono: "set S \<subseteq> set cols \<Longrightarrow> set S \<subseteq> set (grow e cols n S)"
proof (induction n arbitrary: S)
  case 0
  then show ?case by simp
next
  case (Suc n)
  let ?S' = "filter (\<lambda>d. d \<in> set S \<or> (\<exists>s \<in> set S. e s d)) cols"
  have "set ?S' \<subseteq> set cols" by auto
  from Suc.IH [OF this] round_superset [OF Suc.prems, of e] show ?case by auto
qed

lemma round_closed:
  "set S \<subseteq> set cols \<Longrightarrow> closed_under e cols (set S) \<Longrightarrow>
   set (filter (\<lambda>d. d \<in> set S \<or> (\<exists>s \<in> set S. e s d)) cols) = set S"
  unfolding closed_under_def by auto

lemma grow_closed_stable:
  "set S \<subseteq> set cols \<Longrightarrow> closed_under e cols (set S) \<Longrightarrow> set (grow e cols n S) = set S"
proof (induction n arbitrary: S)
  case 0
  then show ?case by simp
next
  case (Suc n)
  let ?S' = "filter (\<lambda>d. d \<in> set S \<or> (\<exists>s \<in> set S. e s d)) cols"
  have eq: "set ?S' = set S" by (rule round_closed [OF Suc.prems])
  have "set (grow e cols n ?S') = set ?S'"
    by (rule Suc.IH) (use eq Suc.prems in simp_all)
  with eq show ?case by simp
qed

lemma grow_closed:
  "set S \<subseteq> set cols \<Longrightarrow> card (set cols) - card (set S) < n \<Longrightarrow>
   closed_under e cols (set (grow e cols n S))"
proof (induction n arbitrary: S)
  case 0
  then show ?case by simp
next
  case (Suc n)
  let ?S' = "filter (\<lambda>d. d \<in> set S \<or> (\<exists>s \<in> set S. e s d)) cols"
  have sub: "set ?S' \<subseteq> set cols" by auto
  have up: "set S \<subseteq> set ?S'" by (rule round_superset [OF Suc.prems(1)])
  show ?case
  proof (cases "set ?S' = set S")
    case True
    have cl: "closed_under e cols (set S)"
      unfolding closed_under_def
    proof (intro ballI impI)
      fix a d assume "a \<in> set S" "d \<in> set cols" "e a d"
      then have "d \<in> set ?S'" by auto
      with True show "d \<in> set S" by simp
    qed
    have "set (grow e cols n ?S') = set ?S'"
      by (rule grow_closed_stable [OF sub]) (use True cl in simp)
    with True cl show ?thesis by simp
  next
    case False
    with up have "set S \<subset> set ?S'" by blast
    then have lt: "card (set S) < card (set ?S')"
      by (intro psubset_card_mono) auto
    have le: "card (set ?S') \<le> card (set cols)"
      by (intro card_mono sub) simp
    from lt le Suc.prems(2) have "card (set cols) - card (set ?S') < n" by linarith
    from Suc.IH [OF sub this] show ?thesis by simp
  qed
qed

lemma closed_contains_component:
  assumes "closed_under e cols A" and "c \<in> A"
  shows "component_set e cols c \<subseteq> A"
proof
  fix d assume "d \<in> component_set e cols c"
  then have "(c, d) \<in> {(a, b). a \<in> set cols \<and> b \<in> set cols \<and> e a b}\<^sup>*"
    by (simp add: component_set_def)
  then show "d \<in> A"
  proof (induction rule: rtrancl_induct)
    case base
    from assms(2) show ?case .
  next
    case (step y z)
    with assms(1) show ?case unfolding closed_under_def by auto
  qed
qed

lemma set_component_of:
  assumes "c \<in> set cols"
  shows "set (component_of e cols c) = component_set e cols c"
proof
  show "set (component_of e cols c) \<subseteq> component_set e cols c"
    unfolding component_of_def
    by (rule grow_sound) (use assms in \<open>simp add: component_set_refl\<close>)
next
  have c1: "set [c] \<subseteq> set cols" using assms by simp
  have "0 < card (set cols)" using assms by (auto simp: card_gt_0_iff)
  moreover have "card (set cols) \<le> length cols" by (rule card_length)
  ultimately have "card (set cols) - card (set [c]) < length cols" by simp
  from grow_closed [OF c1 this]
  have "closed_under e cols (set (component_of e cols c))" by (simp add: component_of_def)
  moreover have "c \<in> set (component_of e cols c)"
    using grow_mono [OF c1, of e "length cols"] by (simp add: component_of_def)
  ultimately show "component_set e cols c \<subseteq> set (component_of e cols c)"
    by (rule closed_contains_component)
qed

lemma grow_is_filter:
  "S = filter (\<lambda>d. d \<in> set S) cols \<Longrightarrow>
   grow e cols n S = filter (\<lambda>d. d \<in> set (grow e cols n S)) cols"
proof (induction n arbitrary: S)
  case 0
  then show ?case by simp
next
  case (Suc n)
  let ?S' = "filter (\<lambda>d. d \<in> set S \<or> (\<exists>s \<in> set S. e s d)) cols"
  have "?S' = filter (\<lambda>d. d \<in> set ?S') cols"
    by (rule filter_cong) auto
  from Suc.IH [OF this] show ?case by simp
qed

lemma component_of_filter:
  assumes "c \<in> set cols"
  shows "component_of e cols c = filter (\<lambda>d. d \<in> component_set e cols c) cols"
proof -
  from assms obtain n where n: "length cols = Suc n" by (cases cols) auto
  let ?S' = "filter (\<lambda>d. d \<in> set [c] \<or> (\<exists>s \<in> set [c]. e s d)) cols"
  have f: "?S' = filter (\<lambda>d. d \<in> set ?S') cols"
    by (rule filter_cong) auto
  have "component_of e cols c = grow e cols n ?S'"
    by (simp add: component_of_def n)
  with grow_is_filter [OF f, of e n]
  have "component_of e cols c = filter (\<lambda>d. d \<in> set (component_of e cols c)) cols" by simp
  then show ?thesis by (simp only: set_component_of [OF assms])
qed

subsection \<open>Labels and groups\<close>

lemma component_set_subset: "component_set e cols c \<subseteq> set cols"
  by (auto simp: component_set_def)

lemma component_set_trans:
  "d \<in> component_set e cols c \<Longrightarrow> x \<in> component_set e cols d \<Longrightarrow> x \<in> component_set e cols c"
  unfolding component_set_def by (auto intro: rtrancl_trans)

lemma component_set_sym:
  assumes sym: "symp e"
    and "d \<in> component_set e cols c" and "c \<in> set cols"
  shows "c \<in> component_set e cols d"
proof -
  let ?R = "{(a, b). a \<in> set cols \<and> b \<in> set cols \<and> e a b}"
  have "sym ?R" using sym by (auto simp: sym_def symp_def)
  then have "sym (?R\<^sup>*)" by (rule sym_rtrancl)
  moreover from assms(2) have "(c, d) \<in> ?R\<^sup>*" by (simp add: component_set_def)
  ultimately have "(d, c) \<in> ?R\<^sup>*" by (auto dest: symD)
  with assms(3) show ?thesis by (simp add: component_set_def)
qed

lemma component_set_eq:
  assumes sym: "symp e"
    and "d \<in> component_set e cols c" and "c \<in> set cols"
  shows "component_set e cols d = component_set e cols c"
  using component_set_sym [OF sym assms(2,3)] assms(2)
  by (auto intro: component_set_trans)

lemma component_of_eq_iff:
  assumes sym: "symp e" and "c \<in> set cols" and "d \<in> set cols"
  shows "component_of e cols d = component_of e cols c \<longleftrightarrow> d \<in> component_set e cols c"
proof
  assume "component_of e cols d = component_of e cols c"
  then have "component_set e cols d = component_set e cols c"
    using set_component_of [OF assms(2), of e] set_component_of [OF assms(3), of e] by simp
  with component_set_refl [OF assms(3), of e] show "d \<in> component_set e cols c" by simp
next
  assume "d \<in> component_set e cols c"
  from component_set_eq [OF sym this assms(2)]
  show "component_of e cols d = component_of e cols c"
    by (simp add: component_of_filter assms(2,3))
qed

lemma hd_component_of:
  assumes sym: "symp e" and "c \<in> set cols"
  shows "hd (component_of e cols c) \<in> set cols"
    and "component_of e cols (hd (component_of e cols c)) = component_of e cols c"
proof -
  let ?h = "hd (component_of e cols c)"
  have "c \<in> set (component_of e cols c)"
    by (simp add: set_component_of assms(2) component_set_refl)
  then have "component_of e cols c \<noteq> []" by auto
  then have h: "?h \<in> set (component_of e cols c)" by simp
  then have hc: "?h \<in> component_set e cols c" by (simp add: set_component_of assms(2))
  with component_set_subset show cols: "?h \<in> set cols" by blast
  show "component_of e cols ?h = component_of e cols c"
    using component_of_eq_iff [OF sym assms(2) cols] hc by simp
qed

lemma nth_takeWhile_neq:
  "x \<in> set xs \<Longrightarrow> xs ! length (takeWhile (\<lambda>f. f \<noteq> x) xs) = x"
  by (induction xs) auto

lemma takeWhile_neq_inj:
  assumes "x \<in> set xs" and "y \<in> set xs"
    and "length (takeWhile (\<lambda>f. f \<noteq> x) xs) = length (takeWhile (\<lambda>f. f \<noteq> y) xs)"
  shows "x = y"
proof -
  have "x = xs ! length (takeWhile (\<lambda>f. f \<noteq> x) xs)"
    by (rule nth_takeWhile_neq [OF assms(1), symmetric])
  also have "\<dots> = xs ! length (takeWhile (\<lambda>f. f \<noteq> y) xs)"
    by (simp only: assms(3))
  also have "\<dots> = y"
    by (rule nth_takeWhile_neq [OF assms(2)])
  finally show ?thesis .
qed

lemma label_eq_iff:
  assumes sym: "symp e" and c: "c \<in> set cols" and d: "d \<in> set cols"
  defines "firsts \<equiv> filter (\<lambda>c. hd (component_of e cols c) = c) cols"
  shows "length (takeWhile (\<lambda>f. f \<noteq> hd (component_of e cols d)) firsts) =
         length (takeWhile (\<lambda>f. f \<noteq> hd (component_of e cols c)) firsts)
         \<longleftrightarrow> d \<in> component_set e cols c"
proof
  assume eq: "length (takeWhile (\<lambda>f. f \<noteq> hd (component_of e cols d)) firsts) =
         length (takeWhile (\<lambda>f. f \<noteq> hd (component_of e cols c)) firsts)"
  have "hd (component_of e cols c) \<in> set firsts" "hd (component_of e cols d) \<in> set firsts"
    unfolding firsts_def
    using hd_component_of [OF sym c] hd_component_of [OF sym d] by simp_all
  from takeWhile_neq_inj [OF this(2,1) eq]
  have "hd (component_of e cols d) = hd (component_of e cols c)" .
  then have "component_of e cols d = component_of e cols c"
    using hd_component_of(2) [OF sym c] hd_component_of(2) [OF sym d] by simp
  then show "d \<in> component_set e cols c"
    by (simp add: component_of_eq_iff [OF sym c d])
next
  assume "d \<in> component_set e cols c"
  then have "component_of e cols d = component_of e cols c"
    by (simp add: component_of_eq_iff [OF sym c d])
  then show "length (takeWhile (\<lambda>f. f \<noteq> hd (component_of e cols d)) firsts) =
         length (takeWhile (\<lambda>f. f \<noteq> hd (component_of e cols c)) firsts)" by simp
qed

lemma zip_map_filter:
  "map snd (filter (\<lambda>(a, b). a = l) (zip (map f xs) xs)) = filter (\<lambda>x. f x = l) xs"
  by (induction xs) simp_all

lemma count_list_map:
  "count_list (map f xs) l = length (filter (\<lambda>x. f x = l) xs)"
  by (induction xs) simp_all

lemma edge_sym: "symp (edge corr threshold)"
  by (auto simp: edge_def symp_def)

lemma map_fst_filter_snd:
  "map fst (filter (\<lambda>(l, n). P n) (map (\<lambda>l. (l, c l)) ys)) = filter (\<lambda>l. P (c l)) ys"
  by (induction ys) simp_all

lemma high_labels_set:
  "set (map fst (filter (\<lambda>(l, n). 1 < n) (np_unique (map lab cols)))) =
   {l \<in> lab ` set cols. 1 < length (filter (\<lambda>x. lab x = l) cols)}"
  unfolding np_unique_def map_fst_filter_snd by (simp add: count_list_map)

lemma comprehension_cong:
  assumes "\<And>c. c \<in> S \<Longrightarrow> F c = G c"
  shows "{F c | c. c \<in> S \<and> P (F c)} = {G c | c. c \<in> S \<and> P (G c)}"
proof (rule set_eqI, rule iffI)
  fix u assume "u \<in> {F c | c. c \<in> S \<and> P (F c)}"
  then obtain c where "u = F c" "c \<in> S" "P (F c)" by blast
  with assms [of c] show "u \<in> {G c | c. c \<in> S \<and> P (G c)}" by auto
next
  fix u assume "u \<in> {G c | c. c \<in> S \<and> P (G c)}"
  then obtain c where "u = G c" "c \<in> S" "P (G c)" by blast
  with assms [of c, symmetric] show "u \<in> {F c | c. c \<in> S \<and> P (F c)}" by auto
qed

lemma groups_by_label:
  "set (map (\<lambda>l. map snd (filter (\<lambda>(cl, col). cl = l) (zip (map lab cols) cols)))
            (map fst (filter (\<lambda>(l, n). 1 < n) (np_unique (map lab cols))))) =
   {filter (\<lambda>x. lab x = lab c) cols | c.
      c \<in> set cols \<and> 1 < length (filter (\<lambda>x. lab x = lab c) cols)}"
proof -
  let ?G = "\<lambda>l. filter (\<lambda>x. lab x = l) cols"
  let ?hl = "map fst (filter (\<lambda>(l, n). 1 < n) (np_unique (map lab cols)))"
  have "set (map (\<lambda>l. map snd (filter (\<lambda>(cl, col). cl = l) (zip (map lab cols) cols))) ?hl) =
        ?G ` set ?hl"
    unfolding zip_map_filter by (rule set_map)
  also have "\<dots> = ?G ` {l \<in> lab ` set cols. 1 < length (?G l)}"
    by (simp only: high_labels_set)
  also have "\<dots> = {?G (lab c) | c. c \<in> set cols \<and> 1 < length (?G (lab c))}"
    by auto
  finally show ?thesis .
qed

lemma high_corr_groups_set:
  "set (high_corr_groups corr threshold cols) =
   {component_of (edge corr threshold) cols c | c.
      c \<in> set cols \<and> 1 < length (component_of (edge corr threshold) cols c)}"
proof -
  let ?e = "edge corr threshold"
  let ?firsts = "filter (\<lambda>c. hd (component_of ?e cols c) = c) cols"
  let ?lab = "\<lambda>c. length (takeWhile (\<lambda>f. f \<noteq> hd (component_of ?e cols c)) ?firsts)"
  have labels: "connected_components ?e cols = map ?lab cols"
    by (simp add: connected_components_def)
  have grp: "filter (\<lambda>x. ?lab x = ?lab c) cols = component_of ?e cols c" if c: "c \<in> set cols" for c
  proof -
    have "filter (\<lambda>x. ?lab x = ?lab c) cols = filter (\<lambda>x. x \<in> component_set ?e cols c) cols"
    proof (rule filter_cong [OF refl])
      fix x assume "x \<in> set cols"
      from label_eq_iff [OF edge_sym c this]
      show "(?lab x = ?lab c) = (x \<in> component_set ?e cols c)" .
    qed
    then show ?thesis by (simp only: component_of_filter [OF c])
  qed
  have "set (high_corr_groups corr threshold cols) =
        {filter (\<lambda>x. ?lab x = ?lab c) cols | c.
           c \<in> set cols \<and> 1 < length (filter (\<lambda>x. ?lab x = ?lab c) cols)}"
    unfolding high_corr_groups_def labels Let_def by (rule groups_by_label)
  also have "\<dots> = {component_of ?e cols c | c. c \<in> set cols \<and> 1 < length (component_of ?e cols c)}"
    by (rule comprehension_cong [where P = "\<lambda>g. 1 < length g"]) (rule grp)
  finally show ?thesis .
qed

subsection \<open>The kept column and the loop\<close>





lemma keep_loop_Inr:
  "keep_loop corr label mat gs acc = Inr out \<Longrightarrow>
   out = acc @ concat (map (dropped_of corr label) gs) \<and>
   (\<forall>g \<in> set gs. \<exists>k. idxmax (map (\<lambda>c. (c, corr c label)) g) = Inr k)"
proof (induction gs arbitrary: mat acc)
  case Nil
  then show ?case by simp
next
  case (Cons g gs)
  from Cons.prems obtain k where k: "idxmax (map (\<lambda>c. (c, corr c label)) g) = Inr k"
    and rest: "keep_loop corr label (filter (\<lambda>c. c \<notin> set (remove1 k g)) mat) gs (acc @ remove1 k g) = Inr out"
    by (auto simp: Let_def split: if_splits sum.splits)
  from Cons.IH [OF rest] k show ?case by (auto simp: dropped_of_def)
qed



subsection \<open>A successful run\<close>

lemma distinct_component_of:
  "distinct cols \<Longrightarrow> c \<in> set cols \<Longrightarrow> distinct (component_of e cols c)"
  by (simp add: component_of_filter)

lemma length_component_of:
  "distinct cols \<Longrightarrow> c \<in> set cols \<Longrightarrow>
   length (component_of e cols c) = card (component_set e cols c)"
  using distinct_card [OF distinct_component_of, of cols c e]
  by (simp add: set_component_of)

lemma in_high_corr_groups:
  assumes "distinct cols"
  shows "g \<in> set (high_corr_groups corr threshold cols) \<longleftrightarrow>
         (\<exists>c \<in> set cols. g = component_of (edge corr threshold) cols c \<and>
                          2 \<le> card (component_set (edge corr threshold) cols c))"
proof -
  have "g \<in> set (high_corr_groups corr threshold cols) \<longleftrightarrow>
        (\<exists>c. g = component_of (edge corr threshold) cols c \<and> c \<in> set cols \<and>
             1 < length (component_of (edge corr threshold) cols c))"
    unfolding high_corr_groups_set by blast
  also have "\<dots> \<longleftrightarrow> (\<exists>c \<in> set cols. g = component_of (edge corr threshold) cols c \<and>
                          2 \<le> card (component_set (edge corr threshold) cols c))"
    using length_component_of [OF assms, of _ "edge corr threshold"] by (auto simp: Suc_le_eq)
  finally show ?thesis .
qed

lemma group_of_member:
  assumes "distinct cols" and "c \<in> set cols"
    and "2 \<le> card (component_set (edge corr threshold) cols c)"
  shows "component_of (edge corr threshold) cols c \<in> set (high_corr_groups corr threshold cols)"
  using assms in_high_corr_groups [OF assms(1)] by blast

lemma group_is_component:
  assumes "distinct cols" and "g \<in> set (high_corr_groups corr threshold cols)" and "m \<in> set g"
  shows "m \<in> set cols"
    and "g = component_of (edge corr threshold) cols m"
    and "2 \<le> card (component_set (edge corr threshold) cols m)"
proof -
  let ?e = "edge corr threshold"
  from assms(2) in_high_corr_groups [OF assms(1)] obtain c where
    c: "c \<in> set cols" "g = component_of ?e cols c" "2 \<le> card (component_set ?e cols c)"
    by blast
  from assms(3) c have m: "m \<in> component_set ?e cols c" by (simp add: set_component_of)
  with component_set_subset show mc: "m \<in> set cols" by blast
  from component_of_eq_iff [OF edge_sym [of corr threshold] c(1) mc] m c(2)
  show "g = component_of ?e cols m" by simp
  from component_set_eq [OF edge_sym [of corr threshold] m c(1)] c(3)
  show "2 \<le> card (component_set ?e cols m)" by simp
qed

lemma run_Inr:
  assumes "drop_multicollinear_features corr user_df label threshold = Inr out"
  shows "high_corr_groups corr threshold (map fst user_df) \<noteq> []"
    and "out = filter (\<lambda>(name, values). name \<notin> set (concat (map (dropped_of corr label)
                  (high_corr_groups corr threshold (map fst user_df))))) user_df"
    and "\<forall>g \<in> set (high_corr_groups corr threshold (map fst user_df)).
           \<exists>k. idxmax (map (\<lambda>c. (c, corr c label)) g) = Inr k"
proof -
  let ?gs = "high_corr_groups corr threshold (map fst user_df)"
  from assms show ne: "?gs \<noteq> []"
    by (auto simp: drop_multicollinear_features_def Let_def split: if_splits)
  with assms obtain d where d: "keep_loop corr label (map fst user_df) ?gs [] = Inr d"
    and out: "out = filter (\<lambda>(name, values). name \<notin> set d) user_df"
    by (auto simp: drop_multicollinear_features_def Let_def split: if_splits sum.splits)
  from keep_loop_Inr [OF d] out
  show "out = filter (\<lambda>(name, values). name \<notin> set (concat (map (dropped_of corr label) ?gs))) user_df"
    and "\<forall>g \<in> set ?gs. \<exists>k. idxmax (map (\<lambda>c. (c, corr c label)) g) = Inr k"
    by simp_all
qed

lemma in_dropped:
  assumes "distinct cols"
    and "m \<in> set (concat (map (dropped_of corr label) (high_corr_groups corr threshold cols)))"
  obtains g k where "g \<in> set (high_corr_groups corr threshold cols)"
    and "idxmax (map (\<lambda>c. (c, corr c label)) g) = Inr k" and "m \<in> set g" and "m \<noteq> k"
proof -
  from assms(2) obtain g where g: "g \<in> set (high_corr_groups corr threshold cols)"
    and m: "m \<in> set (dropped_of corr label g)" by auto
  from m obtain k where k: "idxmax (map (\<lambda>c. (c, corr c label)) g) = Inr k"
    and mk: "m \<in> set (remove1 k g)"
    by (cases "idxmax (map (\<lambda>c. (c, corr c label)) g)") (auto simp: dropped_of_def)
  from mk have mg: "m \<in> set g" using set_remove1_subset by fastforce
  from group_is_component(1,2) [OF assms(1) g mg] assms(1)
  have "distinct g" by (simp add: distinct_component_of)
  with mk have "m \<noteq> k" by simp
  with g k mg that show ?thesis by blast
qed

lemma not_dropped_is_kept:
  assumes "distinct cols" and "g \<in> set (high_corr_groups corr threshold cols)"
    and "idxmax (map (\<lambda>c. (c, corr c label)) g) = Inr k" and "m \<in> set g" and "m \<noteq> k"
  shows "m \<in> set (concat (map (dropped_of corr label) (high_corr_groups corr threshold cols)))"
proof -
  from assms(3,4,5) have "m \<in> set (dropped_of corr label g)"
    by (simp add: dropped_of_def)
  with assms(2) show ?thesis by auto
qed

lemma edge_iff_high:
  "a \<noteq> b \<Longrightarrow>
   edge corr threshold a b \<longleftrightarrow>
     (\<exists>v. (corr a b = Some v \<or> corr b a = Some v) \<and> threshold < \<bar>v\<bar>)"
  by (auto simp: edge_def adj_mat_def is_high_corr_def split: option.splits)

lemma map_fst_filter_names:
  "map fst (filter (\<lambda>(name, values). P name) xs) = filter P (map fst xs)"
  by (induction xs) auto

lemma finite_component_set: "finite (component_set e cols c)"
  by (rule finite_subset [OF component_set_subset]) simp

lemma raises_without_groups:
  assumes "distinct (map fst user_df)"
    and "\<forall>c \<in> set (map fst user_df).
           card (component_set (edge corr threshold) (map fst user_df) c) < 2"
  shows "drop_multicollinear_features corr user_df label threshold = Inl UnboundLocalError"
proof -
  have "g \<notin> set (high_corr_groups corr threshold (map fst user_df))" for g
  proof
    assume "g \<in> set (high_corr_groups corr threshold (map fst user_df))"
    then obtain c where "c \<in> set (map fst user_df)"
      "2 \<le> card (component_set (edge corr threshold) (map fst user_df) c)"
      unfolding in_high_corr_groups [OF assms(1)] by blast
    with assms(2) show False by force
  qed
  then have "high_corr_groups corr threshold (map fst user_df) = []"
    by (cases "high_corr_groups corr threshold (map fst user_df)") auto
  then show ?thesis
    by (simp add: drop_multicollinear_features_def)
qed

lemma component_set_no_edges:
  assumes "\<forall>a \<in> set cols. \<forall>b \<in> set cols. a \<noteq> b \<longrightarrow> \<not> e a b" and "c \<in> set cols"
  shows "component_set e cols c = {c}"
proof -
  have "d = c" if "(c, d) \<in> {(a, b). a \<in> set cols \<and> b \<in> set cols \<and> e a b}\<^sup>*" for d
    using that
  proof (induction rule: rtrancl_induct)
    case base
    show ?case ..
  next
    case (step y z)
    with assms(1) show ?case by auto
  qed
  with assms(2) show ?thesis by (auto simp: component_set_def)
qed

lemma two_in_component:
  assumes "a \<in> set cols" and "b \<in> set cols" and "a \<noteq> b" and "e a b"
  shows "b \<in> component_set e cols a" and "2 \<le> card (component_set e cols a)"
proof -
  show b: "b \<in> component_set e cols a"
    using component_set_step [of a e cols a b] component_set_refl [OF assms(1), of e] assms(2,4)
    by blast
  have "{a, b} \<subseteq> component_set e cols a"
    using b component_set_refl [OF assms(1), of e] by simp
  then have "card {a, b} \<le> card (component_set e cols a)"
    by (intro card_mono finite_component_set)
  moreover have "card {a, b} = 2" using assms(3) by simp
  ultimately show "2 \<le> card (component_set e cols a)" by simp
qed

lemma survivors_not_adjacent:
  assumes d: "distinct (map fst user_df)"
    and run: "drop_multicollinear_features corr user_df label threshold = Inr out"
    and a: "a \<in> set (map fst out)" and b: "b \<in> set (map fst out)" and ab: "a \<noteq> b"
  shows "\<not> edge corr threshold a b"
proof
  let ?cols = "map fst user_df"
  let ?e = "edge corr threshold"
  let ?dropped = "concat (map (dropped_of corr label) (high_corr_groups corr threshold ?cols))"
  assume e: "?e a b"
  have out: "map fst out = filter (\<lambda>n. n \<notin> set ?dropped) ?cols"
    unfolding run_Inr(2) [OF run] by (rule map_fst_filter_names)
  from a b out have ac: "a \<in> set ?cols" and bc: "b \<in> set ?cols"
    and na: "a \<notin> set ?dropped" and nb: "b \<notin> set ?dropped" by auto
  note two = two_in_component [of a ?cols b ?e, OF ac bc ab e]
  let ?g = "component_of ?e ?cols a"
  have g: "?g \<in> set (high_corr_groups corr threshold ?cols)"
    by (rule group_of_member [OF d ac two(2)])
  from run_Inr(3) [OF run] g obtain k where k: "idxmax (map (\<lambda>c. (c, corr c label)) ?g) = Inr k"
    by blast
  have ag: "a \<in> set ?g" and bg: "b \<in> set ?g"
    using two(1) component_set_refl [OF ac, of ?e] by (simp_all add: set_component_of [OF ac])
  from ab have "a \<noteq> k \<or> b \<noteq> k" by auto
  then show False
  proof
    assume "a \<noteq> k"
    from not_dropped_is_kept [OF d g k ag this] na show False by simp
  next
    assume "b \<noteq> k"
    from not_dropped_is_kept [OF d g k bg this] nb show False by simp
  qed
qed

lemma distinct_out:
  assumes "distinct (map fst user_df)"
    and "drop_multicollinear_features corr user_df label threshold = Inr out"
  shows "distinct (map fst out)"
  unfolding run_Inr(2) [OF assms(2)] map_fst_filter_names using assms(1) by simp



subsection \<open>The example tables, evaluated\<close>

lemma corr_AB_values:
  "corr_AB ''A'' ''B'' = Some (9 / 10)" "corr_AB ''B'' ''A'' = Some (9 / 10)"
  "corr_AB ''A'' ''Churn'' = Some (- 3 / 10)" "corr_AB ''Churn'' ''A'' = Some (- 3 / 10)"
  "corr_AB ''B'' ''Churn'' = Some (- 1 / 10)" "corr_AB ''Churn'' ''B'' = Some (- 1 / 10)"
  "corr_AB ''D'' ''Churn'' = Some 0" "corr_AB ''Churn'' ''D'' = Some 0"
  "corr_AB ''D'' ''A'' = Some 0" "corr_AB ''A'' ''D'' = Some 0"
  "corr_AB ''D'' ''B'' = Some 0" "corr_AB ''B'' ''D'' = Some 0"
  "corr_AB ''Churn'' ''Churn'' = Some 1" "corr_AB ''A'' ''A'' = Some 1"
  "corr_AB ''B'' ''B'' = Some 1" "corr_AB ''D'' ''D'' = Some 1"
  by (simp_all add: corr_AB_def corr_of_def)

lemma edge_AB:
  "edge corr_AB default_threshold ''A'' ''B''" "edge corr_AB default_threshold ''B'' ''A''"
  "\<not> edge corr_AB default_threshold ''A'' ''Churn''" "\<not> edge corr_AB default_threshold ''Churn'' ''A''"
  "\<not> edge corr_AB default_threshold ''B'' ''Churn''" "\<not> edge corr_AB default_threshold ''Churn'' ''B''"
  "\<not> edge corr_AB default_threshold ''D'' ''Churn''" "\<not> edge corr_AB default_threshold ''Churn'' ''D''"
  "\<not> edge corr_AB default_threshold ''D'' ''A''" "\<not> edge corr_AB default_threshold ''A'' ''D''"
  "\<not> edge corr_AB default_threshold ''D'' ''B''" "\<not> edge corr_AB default_threshold ''B'' ''D''"
  "\<not> edge corr_AB default_threshold ''Churn'' ''Churn''" "\<not> edge corr_AB default_threshold ''A'' ''A''"
  "\<not> edge corr_AB default_threshold ''B'' ''B''" "\<not> edge corr_AB default_threshold ''D'' ''D''"
  by (simp_all add: edge_def adj_mat_def is_high_corr_def corr_AB_values default_threshold_def)

lemma component_AB:
  "component_of (edge corr_AB default_threshold) [''Churn'', ''A'', ''B'', ''D''] ''Churn'' = [''Churn'']"
  "component_of (edge corr_AB default_threshold) [''Churn'', ''A'', ''B'', ''D''] ''A'' = [''A'', ''B'']"
  "component_of (edge corr_AB default_threshold) [''Churn'', ''A'', ''B'', ''D''] ''B'' = [''A'', ''B'']"
  "component_of (edge corr_AB default_threshold) [''Churn'', ''A'', ''B'', ''D''] ''D'' = [''D'']"
  by (simp_all add: component_of_def edge_AB)

lemma labels_AB:
  "connected_components (edge corr_AB default_threshold) [''Churn'', ''A'', ''B'', ''D''] = [0, 1, 1, 2]"
  by (simp add: connected_components_def component_AB Let_def)

lemma groups_AB:
  "high_corr_groups corr_AB default_threshold [''Churn'', ''A'', ''B'', ''D''] = [''A'', ''B''] # []"
  by (simp add: high_corr_groups_def labels_AB np_unique_def Let_def)

lemma run_AB:
  "drop_multicollinear_features corr_AB table_AB ''Churn'' default_threshold =
   Inr [(''Churn'', 0), (''B'', 2), (''D'', 3)]"
  by (simp add: drop_multicollinear_features_def table_AB_def groups_AB idxmax_def corr_AB_values Let_def)

lemma survivors_AB_no_edges:
  "\<forall>a \<in> set [''Churn'', ''B'', ''D'']. \<forall>b \<in> set [''Churn'', ''B'', ''D''].
     a \<noteq> b \<longrightarrow> \<not> edge corr_AB default_threshold a b"
  by (simp add: edge_AB)





subsection \<open>The claims about the redundancy reducer\<close>

text \<open>
  C5: a table in whose high-correlation graph no column lies in a connected
  component of two or more columns makes \<open>drop_multicollinear_features\<close> raise
  \<open>UnboundLocalError\<close>, the read of the never assigned \<open>cols_to_drop\<close>; the
  table is not returned.
\<close>

theorem no_group_raises:
  assumes "user_df \<noteq> []" and "distinct (map fst user_df)"
    and "\<forall>c \<in> set (map fst user_df).
           card (component_set (edge corr threshold) (map fst user_df) c) < 2"
  shows "drop_multicollinear_features corr user_df label threshold = Inl UnboundLocalError"
  by (rule raises_without_groups [OF assms(2,3)])

theorem no_group_raises_witness:
  "[(''Churn'', 0::nat), (''B'', 2), (''D'', 3)] \<noteq> [] \<and>
   distinct (map fst [(''Churn'', 0::nat), (''B'', 2), (''D'', 3)]) \<and>
   card (component_set (edge corr_AB default_threshold)
           (map fst [(''Churn'', 0::nat), (''B'', 2), (''D'', 3)]) ''Churn'') < 2 \<and>
   card (component_set (edge corr_AB default_threshold)
           (map fst [(''Churn'', 0::nat), (''B'', 2), (''D'', 3)]) ''B'') < 2 \<and>
   card (component_set (edge corr_AB default_threshold)
           (map fst [(''Churn'', 0::nat), (''B'', 2), (''D'', 3)]) ''D'') < 2 \<and>
   drop_multicollinear_features corr_AB [(''Churn'', 0::nat), (''B'', 2), (''D'', 3)]
     ''Churn'' default_threshold = Inl UnboundLocalError"
proof -
  let ?t = "[(''Churn'', 0::nat), (''B'', 2), (''D'', 3)]"
  have ne: "?t \<noteq> []" by simp
  have d: "distinct (map fst ?t)" by simp
  have iso: "\<forall>c \<in> set (map fst ?t).
      card (component_set (edge corr_AB default_threshold) (map fst ?t) c) < 2"
  proof
    fix c assume "c \<in> set (map fst ?t)"
    then have c: "c \<in> set [''Churn'', ''B'', ''D'']" by simp
    have "component_set (edge corr_AB default_threshold) [''Churn'', ''B'', ''D''] c = {c}"
      by (rule component_set_no_edges [OF survivors_AB_no_edges c])
    then show "card (component_set (edge corr_AB default_threshold) (map fst ?t) c) < 2"
      by simp
  qed
  from iso have "card (component_set (edge corr_AB default_threshold) (map fst ?t) ''Churn'') < 2"
    and "card (component_set (edge corr_AB default_threshold) (map fst ?t) ''B'') < 2"
    and "card (component_set (edge corr_AB default_threshold) (map fst ?t) ''D'') < 2"
    by simp_all
  with no_group_raises [OF ne d iso, of "''Churn''"] ne d show ?thesis by blast
qed

text \<open>
  C4: a second run on the output of a successful run does not return the same
  table: it raises \<open>UnboundLocalError\<close>, because the surviving columns are
  pairwise not adjacent and \<open>cols_to_drop\<close> is then never assigned.
\<close>

theorem second_run_raises:
  assumes "distinct (map fst user_df)"
    and "drop_multicollinear_features corr user_df label threshold = Inr out"
  shows "drop_multicollinear_features corr out label threshold = Inl UnboundLocalError"
proof (rule raises_without_groups [OF distinct_out [OF assms]], rule ballI)
  fix c assume c: "c \<in> set (map fst out)"
  have "\<forall>a \<in> set (map fst out). \<forall>b \<in> set (map fst out). a \<noteq> b \<longrightarrow> \<not> edge corr threshold a b"
    using survivors_not_adjacent [OF assms] by blast
  from component_set_no_edges [OF this c]
  show "card (component_set (edge corr threshold) (map fst out) c) < 2" by simp
qed

theorem second_run_raises_witness:
  "distinct (map fst table_AB) \<and>
   drop_multicollinear_features corr_AB table_AB ''Churn'' default_threshold =
     Inr [(''Churn'', 0), (''B'', 2), (''D'', 3)] \<and>
   drop_multicollinear_features corr_AB [(''Churn'', 0::nat), (''B'', 2), (''D'', 3)]
     ''Churn'' default_threshold = Inl UnboundLocalError"
proof -
  have d: "distinct (map fst table_AB)" by (simp add: table_AB_def)
  from second_run_raises [OF d run_AB] d run_AB show ?thesis by blast
qed

text \<open>
  On the runs that return a table the frame property holds: every column of the
  input that lies in no connected component of two or more columns is in the
  returned table, with its data.
\<close>

lemma isolated_column_retained_on_return:
  assumes "distinct (map fst user_df)"
    and "drop_multicollinear_features corr user_df label threshold = Inr out"
    and "(c, v) \<in> set user_df"
    and "card (component_set (edge corr threshold) (map fst user_df) c) < 2"
  shows "(c, v) \<in> set out"
proof -
  let ?cols = "map fst user_df"
  let ?dropped = "concat (map (dropped_of corr label) (high_corr_groups corr threshold ?cols))"
  have "c \<notin> set ?dropped"
  proof
    assume "c \<in> set ?dropped"
    from in_dropped [OF assms(1) this] obtain g where
      g: "g \<in> set (high_corr_groups corr threshold ?cols)" and cg: "c \<in> set g" by metis
    from group_is_component(3) [OF assms(1) g cg] assms(4) show False by simp
  qed
  with assms(3) show ?thesis unfolding run_Inr(2) [OF assms(2)] by simp
qed

lemma isolated_column_retained_example:
  "card (component_set (edge corr_AB default_threshold) (map fst table_AB) ''D'') < 2 \<and>
   (''D'', 3) \<in> set [(''Churn'', 0), (''B'', 2), (''D'', 3::nat)]"
proof -
  have d: "distinct (map fst table_AB)" by (simp add: table_AB_def)
  have m: "(''D'', 3) \<in> set table_AB" by (simp add: table_AB_def)
  have names: "map fst table_AB = [''Churn'', ''A'', ''B'', ''D'']" by (simp add: table_AB_def)
  have "component_set (edge corr_AB default_threshold) (map fst table_AB) ''D'' = set [''D'']"
    unfolding names using set_component_of [of "''D''" "[''Churn'', ''A'', ''B'', ''D'']"
        "edge corr_AB default_threshold"] by (simp add: component_AB)
  then have iso: "card (component_set (edge corr_AB default_threshold) (map fst table_AB) ''D'') < 2"
    by simp
  from isolated_column_retained_on_return [OF d run_AB m iso] iso show ?thesis by blast
qed

text \<open>
  C8: every column outside every connected component of two or more columns is
  to be found, unchanged, in the returned table. The code misses this on a table
  that has no such component at all: with the two uncorrelated columns \<open>Churn\<close>
  and \<open>D\<close> both columns are to be retained, and no table is returned, the run
  raises \<open>UnboundLocalError\<close>.
\<close>

theorem isolated_columns_not_returned:
  "corr_AB ''Churn'' ''D'' = Some 0 \<and> corr_AB ''D'' ''Churn'' = Some 0 \<and>
   drop_multicollinear_features corr_AB [(''Churn'', 0::nat), (''D'', 3)]
     ''Churn'' default_threshold = Inl UnboundLocalError"
proof -
  let ?t = "[(''Churn'', 0::nat), (''D'', 3)]"
  have d: "distinct (map fst ?t)" by simp
  have none: "\<forall>a \<in> set [''Churn'', ''D'']. \<forall>b \<in> set [''Churn'', ''D''].
      a \<noteq> b \<longrightarrow> \<not> edge corr_AB default_threshold a b"
    by (simp add: edge_AB)
  have iso: "\<forall>c \<in> set (map fst ?t).
      card (component_set (edge corr_AB default_threshold) (map fst ?t) c) < 2"
  proof
    fix c assume "c \<in> set (map fst ?t)"
    then have c: "c \<in> set [''Churn'', ''D'']" by simp
    have "component_set (edge corr_AB default_threshold) [''Churn'', ''D''] c = {c}"
      by (rule component_set_no_edges [OF none c])
    then show "card (component_set (edge corr_AB default_threshold) (map fst ?t) c) < 2"
      by simp
  qed
  from raises_without_groups [OF d iso, of "''Churn''"] corr_AB_values(7,8)
  show ?thesis by simp
qed







end
